theory Spec2Isabelle
  imports Main
begin

section \<open>The final class TTLLRUCache\<close>

text \<open>
  The repository holds three generations of one cache: the component \<open>CacheSystem\<close> (v1), the
  class \<open>TTLCache\<close> (v2) and the class \<open>TTLLRUCache\<close> (v3). The development below embeds the
  final class, \<open>TTLLRUCache\<close>, method by method, then the class \<open>TTLCache\<close> and the cache
  functions of \<open>CacheSystem\<close>. The earlier generations differ from the final class in places:
  \<open>TTLCache\<close> orders its entries by a \<open>lastAccessAt\<close> timestamp, its \<open>size\<close> and \<open>has\<close> do not
  sweep and its \<open>delete\<close> returns nothing; \<open>CacheSystem\<close> has no default TTL and no persistence.
  Where a property is stated of more than one generation, it is proved of each.

  Conventions of the embedding:
  \<^item> numbers are \<open>int\<close> (timestamps in milliseconds, TTLs, sizes); \<open>NaN\<close> and the infinities are
    outside the model;
  \<^item> every \<open>Date.now()\<close> that a method's logic reads is a parameter of the method, in the order
    of the reads; the timestamp that \<open>log\<close> puts on an event is left out;
  \<^item> a JavaScript \<open>Map\<close> is the list of its (key, value) pairs in insertion order, oldest first;
  \<^item> \<open>localStorage\<close> is a partial map from storage keys to texts, a text being kept as what
    \<open>JSON.parse\<close> makes of it; every call to it is recorded, and a flag says whether \<open>setItem\<close>
    succeeds;
  \<^item> the callback \<open>onLog\<close> is the list of the events it has received, oldest first;
  \<^item> a \<open>try\<close>/\<open>catch\<close> is a case distinction on a result that is either an exception or a value.
\<close>

subsection \<open>Types\<close>

record CacheEntry =
  val :: string
  expiresAt :: int

record CacheConfig =
  maxSize :: int
  defaultTTLms :: int
  storageKey :: string

datatype LogType =
  Hit | Miss | Expired | Evicted | Saved | Loaded | ParseError | SetEv | DeleteEv | ClearEv

text \<open>One constructor for each message template of the class, holding the template's variables.\<close>

datatype Message =
    ExpiredAndRemoved string
  | ExpiredOnAccess string
  | CacheMiss string
  | CacheHit string
  | EvictedLRU "string option"
  | SetKey string int
  | DeletedKey string
  | CacheCleared
  | Persisted nat
  | FailedToSave
  | LoadedEntries nat nat
  | FailedToParse

record LogEntry =
  ltype :: LogType
  message :: Message

type_synonym entries = "(string \<times> CacheEntry) list"

subsection \<open>The JavaScript Map, in insertion order\<close>

definition map_has :: "string \<Rightarrow> (string \<times> 'v) list \<Rightarrow> bool" where
  "map_has k m = (map_of m k \<noteq> None)"

definition map_get :: "string \<Rightarrow> (string \<times> 'v) list \<Rightarrow> 'v option" where
  "map_get k m = map_of m k"

text \<open>\<open>Map.set\<close> keeps the position of a key that is present and appends a new key.\<close>

primrec map_set :: "string \<Rightarrow> 'v \<Rightarrow> (string \<times> 'v) list \<Rightarrow> (string \<times> 'v) list" where
  "map_set k v [] = [(k, v)]"
| "map_set k v (p # ps) = (if fst p = k then (k, v) # ps else p # map_set k v ps)"

definition map_delete :: "string \<Rightarrow> (string \<times> 'v) list \<Rightarrow> (string \<times> 'v) list" where
  "map_delete k m = filter (\<lambda>p. fst p \<noteq> k) m"

text \<open>\<open>keys().next().value\<close>: the oldest key, \<open>undefined\<close> on an empty Map.\<close>

definition map_first_key :: "(string \<times> 'v) list \<Rightarrow> string option" where
  "map_first_key m = (case m of [] \<Rightarrow> None | p # _ \<Rightarrow> Some (fst p))"

subsection \<open>localStorage and JSON\<close>

text \<open>
  A stored text is empty, or a text that \<open>JSON.parse\<close> rejects, or the JSON of an array. The
  class casts the parsed value to \<open>Array<[string, CacheEntry]>\<close> without a check, so an element
  of the array is either such a pair or something on which the loop of \<open>loadFromStorage\<close> throws
  a \<open>TypeError\<close>: a value that cannot be destructured (\<open>null\<close>, a number, a boolean, an object)
  or whose second component is missing or \<open>null\<close>. JSON of any other shape is outside the model.
\<close>

datatype 'e elem = KeyEntry string 'e | NotAPair

datatype 'e json_text = EmptyText | Garbage | JsonText "'e elem list"

datatype exn = SyntaxError | TypeError | QuotaExceededError

datatype 'e StorageCall = GetItem string | SetItem string "'e json_text"

record 'e LocalStorage =
  items :: "string \<Rightarrow> 'e json_text option"
  quota_ok :: bool
  calls :: "'e StorageCall list"

definition getItem ::
  "string \<Rightarrow> 'e LocalStorage \<Rightarrow> 'e json_text option \<times> 'e LocalStorage" where
  "getItem k ls = (items ls k, ls\<lparr>calls := calls ls @ [GetItem k]\<rparr>)"

text \<open>\<open>setItem\<close> throws when the quota is exceeded and stores nothing then.\<close>

definition setItem ::
  "string \<Rightarrow> 'e json_text \<Rightarrow> 'e LocalStorage \<Rightarrow> exn option \<times> 'e LocalStorage" where
  "setItem k t ls =
     (if quota_ok ls
      then (None, ls\<lparr>items := (items ls)(k \<mapsto> t), calls := calls ls @ [SetItem k t]\<rparr>)
      else (Some QuotaExceededError, ls\<lparr>calls := calls ls @ [SetItem k t]\<rparr>))"

definition toElems :: "(string \<times> 'e) list \<Rightarrow> 'e elem list" where
  "toElems d = map (\<lambda>(k, e). KeyEntry k e) d"

definition JSON_stringify :: "(string \<times> 'e) list \<Rightarrow> 'e json_text" where
  "JSON_stringify d = JsonText (toElems d)"

fun JSON_parse :: "'e json_text \<Rightarrow> exn + 'e elem list" where
  "JSON_parse EmptyText = Inl SyntaxError"
| "JSON_parse Garbage = Inl SyntaxError"
| "JSON_parse (JsonText d) = Inr d"

subsection \<open>The class\<close>

record TTLLRUCache =
  cache :: entries
  config :: CacheConfig
  onLog :: "LogEntry list"
  localStorage :: "CacheEntry LocalStorage"

definition log :: "LogType \<Rightarrow> Message \<Rightarrow> TTLLRUCache \<Rightarrow> TTLLRUCache" where
  "log t m s = s\<lparr>onLog := onLog s @ [\<lparr>ltype = t, message = m\<rparr>]\<rparr>"

text \<open>\<open>cleanupExpired\<close>: the first loop collects the expired keys, the second deletes them.\<close>

fun collectExpired :: "int \<Rightarrow> (string \<times> 'a CacheEntry_scheme) list \<Rightarrow> string list" where
  "collectExpired now [] = []"
| "collectExpired now ((key, entry) # rest) =
     (if now \<ge> expiresAt entry then key # collectExpired now rest
      else collectExpired now rest)"

fun deleteAll :: "string list \<Rightarrow> TTLLRUCache \<Rightarrow> TTLLRUCache" where
  "deleteAll [] s = s"
| "deleteAll (key # rest) s =
     deleteAll rest
       (log Expired (ExpiredAndRemoved key) (s\<lparr>cache := map_delete key (cache s)\<rparr>))"

definition cleanupExpired :: "int \<Rightarrow> TTLLRUCache \<Rightarrow> TTLLRUCache" where
  "cleanupExpired now s = deleteAll (collectExpired now (cache s)) s"

definition saveToStorage :: "TTLLRUCache \<Rightarrow> TTLLRUCache" where
  "saveToStorage s =
     (let data = cache s;
          json = JSON_stringify data
      in case setItem (storageKey (config s)) json (localStorage s) of
           (None, ls) \<Rightarrow> log Saved (Persisted (length data)) (s\<lparr>localStorage := ls\<rparr>)
         | (Some error, ls) \<Rightarrow> log ParseError FailedToSave (s\<lparr>localStorage := ls\<rparr>))"

text \<open>
  The loop of \<open>loadFromStorage\<close>, with its two counters. It works on the Map of the cache, so
  what it has inserted stays when an element makes it throw.
\<close>

fun loadLoop ::
  "int \<Rightarrow> CacheEntry elem list \<Rightarrow> entries \<times> nat \<times> nat
     \<Rightarrow> entries \<times> (exn + nat \<times> nat)" where
  "loadLoop now [] (c, loaded, expired) = (c, Inr (loaded, expired))"
| "loadLoop now (NotAPair # rest) (c, loaded, expired) = (c, Inl TypeError)"
| "loadLoop now (KeyEntry key entry # rest) (c, loaded, expired) =
     (if now < expiresAt entry
      then loadLoop now rest (map_set key entry c, loaded + 1, expired)
      else loadLoop now rest (c, loaded, expired + 1))"

definition loadFromStorage :: "int \<Rightarrow> TTLLRUCache \<Rightarrow> TTLLRUCache" where
  "loadFromStorage now s =
     (case getItem (storageKey (config s)) (localStorage s) of
        (json, ls) \<Rightarrow>
          (let s1 = s\<lparr>localStorage := ls\<rparr> in
           case json of
             None \<Rightarrow> s1
           | Some text \<Rightarrow>
               if text = EmptyText then s1
               else
                 (case JSON_parse text of
                    Inl error \<Rightarrow> log ParseError FailedToParse s1
                  | Inr data \<Rightarrow>
                      (case loadLoop now data (cache s1, 0, 0) of
                         (c, Inl error) \<Rightarrow> log ParseError FailedToParse (s1\<lparr>cache := c\<rparr>)
                       | (c, Inr (loaded, expired)) \<Rightarrow>
                           log Loaded (LoadedEntries loaded expired) (s1\<lparr>cache := c\<rparr>)))))"

text \<open>\<open>new TTLLRUCache(config, onLog)\<close> on the ambient \<open>localStorage\<close>.\<close>

definition constructor ::
  "CacheConfig \<Rightarrow> LogEntry list \<Rightarrow> CacheEntry LocalStorage \<Rightarrow> int \<Rightarrow> TTLLRUCache" where
  "constructor cfg lg ls now =
     loadFromStorage now \<lparr>cache = [], config = cfg, onLog = lg, localStorage = ls\<rparr>"

definition get :: "int \<Rightarrow> int \<Rightarrow> string \<Rightarrow> TTLLRUCache \<Rightarrow> string option \<times> TTLLRUCache" where
  "get t1 t2 key s =
     (let s1 = cleanupExpired t1 s in
      case map_get key (cache s1) of
        None \<Rightarrow> (None, log Miss (CacheMiss key) s1)
      | Some entry \<Rightarrow>
          (let now = t2 in
           if now \<ge> expiresAt entry
           then (None, log Expired (ExpiredOnAccess key) (s1\<lparr>cache := map_delete key (cache s1)\<rparr>))
           else (Some (val entry),
                 log Hit (CacheHit key)
                   (s1\<lparr>cache := map_set key entry (map_delete key (cache s1))\<rparr>))))"

definition set_cache ::
  "int \<Rightarrow> int \<Rightarrow> string \<Rightarrow> string \<Rightarrow> int option \<Rightarrow> TTLLRUCache \<Rightarrow> TTLLRUCache" where
  "set_cache t1 t2 key v ttlMs s =
     (let s1 = cleanupExpired t1 s;
          ttl = (case ttlMs of Some t \<Rightarrow> t | None \<Rightarrow> defaultTTLms (config s1));
          expiresAt' = t2 + ttl;
          s2 = s1\<lparr>cache := map_delete key (cache s1)\<rparr>;
          s3 = (if int (length (cache s2)) \<ge> maxSize (config s2)
                then (let lruKey = map_first_key (cache s2) in
                      log Evicted (EvictedLRU lruKey)
                        (s2\<lparr>cache := (case lruKey of None \<Rightarrow> cache s2
                                        | Some k \<Rightarrow> map_delete k (cache s2))\<rparr>))
                else s2);
          s4 = s3\<lparr>cache := map_set key \<lparr>val = v, expiresAt = expiresAt'\<rparr> (cache s3)\<rparr>
      in saveToStorage (log SetEv (SetKey key ttl) s4))"

definition delete :: "string \<Rightarrow> TTLLRUCache \<Rightarrow> bool \<times> TTLLRUCache" where
  "delete key s =
     (let deleted = map_has key (cache s);
          s1 = s\<lparr>cache := map_delete key (cache s)\<rparr>
      in if deleted then (deleted, saveToStorage (log DeleteEv (DeletedKey key) s1))
         else (deleted, s1))"

definition clear :: "TTLLRUCache \<Rightarrow> TTLLRUCache" where
  "clear s = saveToStorage (log ClearEv CacheCleared (s\<lparr>cache := []\<rparr>))"

definition getEntries :: "int \<Rightarrow> TTLLRUCache \<Rightarrow> entries \<times> TTLLRUCache" where
  "getEntries now s = (let s1 = cleanupExpired now s in (rev (cache s1), s1))"

definition getSize :: "int \<Rightarrow> TTLLRUCache \<Rightarrow> nat \<times> TTLLRUCache" where
  "getSize now s = (let s1 = cleanupExpired now s in (length (cache s1), s1))"

definition getKeys :: "TTLLRUCache \<Rightarrow> string list" where
  "getKeys s = rev (map fst (cache s))"

definition has :: "int \<Rightarrow> string \<Rightarrow> TTLLRUCache \<Rightarrow> bool \<times> TTLLRUCache" where
  "has now key s = (let s1 = cleanupExpired now s in (map_has key (cache s1), s1))"

subsection \<open>Reachable states and emitted events\<close>

text \<open>
  A state is reachable when a constructor call produced it, on any \<open>localStorage\<close> content and
  at any time, or a public method produced it from a reachable state.
\<close>

inductive reachable :: "TTLLRUCache \<Rightarrow> bool" where
  r_new: "reachable (constructor cfg lg ls now)"
| r_set: "reachable s \<Longrightarrow> reachable (set_cache t1 t2 key v ttlMs s)"
| r_get: "reachable s \<Longrightarrow> reachable (snd (get t1 t2 key s))"
| r_delete: "reachable s \<Longrightarrow> reachable (snd (delete key s))"
| r_clear: "reachable s \<Longrightarrow> reachable (clear s)"
| r_getEntries: "reachable s \<Longrightarrow> reachable (snd (getEntries now s))"
| r_getSize: "reachable s \<Longrightarrow> reachable (snd (getSize now s))"
| r_has: "reachable s \<Longrightarrow> reachable (snd (has now key s))"


text \<open>
  The specification's notion of a live key: resident, and the current time is before its
  \<open>expiresAt\<close>.
\<close>

definition liveKey :: "int \<Rightarrow> (string \<times> 'a CacheEntry_scheme) list \<Rightarrow> string \<Rightarrow> bool" where
  "liveKey now m k = (case map_get k m of None \<Rightarrow> False | Some e \<Rightarrow> now < expiresAt e)"

subsection \<open>Example states\<close>

text \<open>
  The configuration of test C3 of the test plan (\<open>maxSize = 3\<close>), a \<open>localStorage\<close> with nothing
  in it, and the cache after \<open>set A\<close>, \<open>set B\<close>, \<open>set C\<close> at the times 10, 20 and 30.
\<close>

definition c3Config :: CacheConfig where
  "c3Config = \<lparr>maxSize = 3, defaultTTLms = 10000, storageKey = ''lru-test-c3''\<rparr>"

definition emptyStorage :: "CacheEntry LocalStorage" where
  "emptyStorage = \<lparr>items = (\<lambda>k. None), quota_ok = True, calls = []\<rparr>"

definition c3Cache :: TTLLRUCache where
  "c3Cache =
     set_cache 30 30 ''C'' ''3'' None
       (set_cache 20 20 ''B'' ''2'' None
         (set_cache 10 10 ''A'' ''1'' None (constructor c3Config [] emptyStorage 0)))"

text \<open>
  Test D4 of the test plan: a text that is not JSON is stored under the key before the cache is
  constructed.
\<close>

definition d4Config :: CacheConfig where
  "d4Config = \<lparr>maxSize = 5, defaultTTLms = 10000, storageKey = ''persist-test-d4''\<rparr>"

definition d4Storage :: "CacheEntry LocalStorage" where
  "d4Storage =
     \<lparr>items = (\<lambda>k. if k = ''persist-test-d4'' then Some Garbage else None),
      quota_ok = True, calls = []\<rparr>"



section \<open>The earlier class TTLCache\<close>

text \<open>
  The second generation, embedded with the same conventions. Its entries carry a
  \<open>lastAccessAt\<close> timestamp, which \<open>set\<close> and a \<open>get\<close> that hits write and which \<open>getAll\<close> and
  the search for the entry to evict read; the place of a key in the Map plays no part in
  recency.
\<close>

subsection \<open>Types\<close>

record TTLCacheEntry = CacheEntry +
  lastAccessAt :: int

type_synonym timed_entries = "(string \<times> TTLCacheEntry) list"

text \<open>One constructor for each message template of the class.\<close>

datatype TTLCacheMessage =
    CleanedUpExpired string
  | EvictedKey string
  | SetKeyTTL string int
  | MissForKey string
  | ExpiredKeyRemoved string
  | HitForKey string
  | DeletedKeyTTLCache string
  | ClearedTTLCache
  | PersistedEntries nat
  | SaveFailed
  | NoStoredData
  | LoadedDiscarded nat nat
  | LoadFailed

type_synonym LogEvent = "LogType \<times> TTLCacheMessage"

text \<open>What a method declared \<open>void\<close> or \<open>boolean\<close> hands back to its caller.\<close>

datatype jsvalue = JSUndefined | JSBoolean bool

subsection \<open>The class\<close>

record TTLCache =
  cache_v2 :: timed_entries
  config_v2 :: CacheConfig
  logCallback :: "LogEvent list"
  localStorage_v2 :: "TTLCacheEntry LocalStorage"

definition TTLCache_log :: "LogType \<Rightarrow> TTLCacheMessage \<Rightarrow> TTLCache \<Rightarrow> TTLCache" where
  "TTLCache_log t m s = s\<lparr>logCallback := logCallback s @ [(t, m)]\<rparr>"

text \<open>
  \<open>cleanupExpired\<close>: the first loop is the one of \<open>TTLLRUCache\<close> (\<open>collectExpired\<close>), the
  \<open>forEach\<close> deletes the collected keys.
\<close>

fun TTLCache_deleteAll :: "string list \<Rightarrow> TTLCache \<Rightarrow> TTLCache" where
  "TTLCache_deleteAll [] s = s"
| "TTLCache_deleteAll (key # rest) s =
     TTLCache_deleteAll rest
       (TTLCache_log Expired (CleanedUpExpired key)
          (s\<lparr>cache_v2 := map_delete key (cache_v2 s)\<rparr>))"

definition TTLCache_cleanupExpired :: "int \<Rightarrow> TTLCache \<Rightarrow> TTLCache" where
  "TTLCache_cleanupExpired now s = TTLCache_deleteAll (collectExpired now (cache_v2 s)) s"

definition TTLCache_saveToStorage :: "TTLCache \<Rightarrow> TTLCache" where
  "TTLCache_saveToStorage s =
     (let data = cache_v2 s;
          serialized = JSON_stringify data
      in case setItem (storageKey (config_v2 s)) serialized (localStorage_v2 s) of
           (None, ls) \<Rightarrow>
             TTLCache_log Saved (PersistedEntries (length data)) (s\<lparr>localStorage_v2 := ls\<rparr>)
         | (Some error, ls) \<Rightarrow> TTLCache_log ParseError SaveFailed (s\<lparr>localStorage_v2 := ls\<rparr>))"

text \<open>
  The search of \<open>set\<close> for the entry with the oldest \<open>lastAccessAt\<close>: \<open>lruKey\<close> starts as
  \<open>null\<close> and \<open>oldestAccess\<close> as \<open>Infinity\<close> (here \<open>None\<close>); a later entry replaces the candidate
  only with a strictly older timestamp.
\<close>

fun findLRU ::
  "timed_entries \<Rightarrow> string option \<times> int option \<Rightarrow> string option \<times> int option" where
  "findLRU [] acc = acc"
| "findLRU ((k, entry) # rest) (lruKey, oldestAccess) =
     (if (case oldestAccess of None \<Rightarrow> True | Some oldest \<Rightarrow> lastAccessAt entry < oldest)
      then findLRU rest (Some k, Some (lastAccessAt entry))
      else findLRU rest (lruKey, oldestAccess))"

text \<open>\<open>if (lruKey)\<close> is false for \<open>null\<close> and for the empty string.\<close>

definition TTLCache_set ::
  "int \<Rightarrow> int \<Rightarrow> string \<Rightarrow> string \<Rightarrow> int option \<Rightarrow> TTLCache \<Rightarrow> TTLCache" where
  "TTLCache_set t1 t2 key v ttlMs s =
     (let s1 = TTLCache_cleanupExpired t1 s;
          now = t2;
          ttl = (case ttlMs of Some t \<Rightarrow> t | None \<Rightarrow> defaultTTLms (config_v2 s1));
          s2 = (if \<not> map_has key (cache_v2 s1)
                   \<and> int (length (cache_v2 s1)) \<ge> maxSize (config_v2 s1)
                then (case fst (findLRU (cache_v2 s1) (None, None)) of
                        None \<Rightarrow> s1
                      | Some lruKey \<Rightarrow>
                          if lruKey = [] then s1
                          else TTLCache_log Evicted (EvictedKey lruKey)
                                 (s1\<lparr>cache_v2 := map_delete lruKey (cache_v2 s1)\<rparr>))
                else s1);
          s3 = s2\<lparr>cache_v2 :=
                   map_set key \<lparr>val = v, expiresAt = now + ttl, lastAccessAt = now\<rparr> (cache_v2 s2)\<rparr>
      in TTLCache_saveToStorage (TTLCache_log SetEv (SetKeyTTL key ttl) s3))"

text \<open>\<open>get\<close> does not sweep; a hit writes the timestamp into the entry, in its place.\<close>

definition TTLCache_get :: "int \<Rightarrow> string \<Rightarrow> TTLCache \<Rightarrow> string option \<times> TTLCache" where
  "TTLCache_get now key s =
     (case map_get key (cache_v2 s) of
        None \<Rightarrow> (None, TTLCache_log Miss (MissForKey key) s)
      | Some entry \<Rightarrow>
          if now \<ge> expiresAt entry
          then (None,
                TTLCache_saveToStorage
                  (TTLCache_log Expired (ExpiredKeyRemoved key)
                     (s\<lparr>cache_v2 := map_delete key (cache_v2 s)\<rparr>)))
          else (Some (val entry),
                TTLCache_log Hit (HitForKey key)
                  (s\<lparr>cache_v2 := map_set key (entry\<lparr>lastAccessAt := now\<rparr>) (cache_v2 s)\<rparr>)))"

text \<open>\<open>delete\<close> is declared \<open>void\<close>: whatever it did, the caller receives \<open>undefined\<close>.\<close>

definition TTLCache_delete :: "string \<Rightarrow> TTLCache \<Rightarrow> jsvalue \<times> TTLCache" where
  "TTLCache_delete key s =
     (let s1 = s\<lparr>cache_v2 := map_delete key (cache_v2 s)\<rparr>
      in if map_has key (cache_v2 s)
         then (JSUndefined,
               TTLCache_saveToStorage (TTLCache_log SetEv (DeletedKeyTTLCache key) s1))
         else (JSUndefined, s1))"

definition TTLCache_clear :: "TTLCache \<Rightarrow> TTLCache" where
  "TTLCache_clear s =
     TTLCache_saveToStorage (TTLCache_log SetEv ClearedTTLCache (s\<lparr>cache_v2 := []\<rparr>))"


definition TTLCache_size :: "TTLCache \<Rightarrow> nat" where
  "TTLCache_size s = length (cache_v2 s)"

definition TTLCache_has :: "string \<Rightarrow> TTLCache \<Rightarrow> bool" where
  "TTLCache_has key s = map_has key (cache_v2 s)"

text \<open>The loop of \<open>loadFromStorage\<close>; its \<open>catch\<close> clears the Map.\<close>

fun TTLCache_loadLoop ::
  "int \<Rightarrow> TTLCacheEntry elem list \<Rightarrow> timed_entries \<times> nat \<times> nat
     \<Rightarrow> timed_entries \<times> (exn + nat \<times> nat)" where
  "TTLCache_loadLoop now [] (c, loadedCount, expiredCount) = (c, Inr (loadedCount, expiredCount))"
| "TTLCache_loadLoop now (NotAPair # rest) (c, loadedCount, expiredCount) = (c, Inl TypeError)"
| "TTLCache_loadLoop now (KeyEntry key entry # rest) (c, loadedCount, expiredCount) =
     (if now \<ge> expiresAt entry
      then TTLCache_loadLoop now rest (c, loadedCount, expiredCount + 1)
      else TTLCache_loadLoop now rest (map_set key entry c, loadedCount + 1, expiredCount))"

definition TTLCache_loadFromStorage :: "int \<Rightarrow> TTLCache \<Rightarrow> TTLCache" where
  "TTLCache_loadFromStorage now s =
     (case getItem (storageKey (config_v2 s)) (localStorage_v2 s) of
        (stored, ls) \<Rightarrow>
          (let s1 = s\<lparr>localStorage_v2 := ls\<rparr> in
           case stored of
             None \<Rightarrow> TTLCache_log Loaded NoStoredData s1
           | Some text \<Rightarrow>
               if text = EmptyText then TTLCache_log Loaded NoStoredData s1
               else
                 (case JSON_parse text of
                    Inl error \<Rightarrow> (TTLCache_log ParseError LoadFailed s1)\<lparr>cache_v2 := []\<rparr>
                  | Inr data \<Rightarrow>
                      (case TTLCache_loadLoop now data (cache_v2 s1, 0, 0) of
                         (c, Inl error) \<Rightarrow>
                           (TTLCache_log ParseError LoadFailed (s1\<lparr>cache_v2 := c\<rparr>))
                             \<lparr>cache_v2 := []\<rparr>
                       | (c, Inr (loadedCount, expiredCount)) \<Rightarrow>
                           TTLCache_log Loaded (LoadedDiscarded loadedCount expiredCount)
                             (s1\<lparr>cache_v2 := c\<rparr>)))))"

definition TTLCache_constructor ::
  "CacheConfig \<Rightarrow> LogEvent list \<Rightarrow> TTLCacheEntry LocalStorage \<Rightarrow> int \<Rightarrow> TTLCache" where
  "TTLCache_constructor cfg lg ls now =
     TTLCache_loadFromStorage now
       \<lparr>cache_v2 = [], config_v2 = cfg, logCallback = lg, localStorage_v2 = ls\<rparr>"

definition updateConfig :: "CacheConfig \<Rightarrow> TTLCache \<Rightarrow> TTLCache" where
  "updateConfig cfg s = s\<lparr>config_v2 := cfg\<rparr>"

text \<open>
  The states of a \<open>TTLCache\<close> that a program can reach: the constructor's, and the state after
  any method that writes. \<open>getAll\<close>, \<open>size\<close> and \<open>has\<close> only read.
\<close>

inductive TTLCache_reachable :: "TTLCache \<Rightarrow> bool" where
  v2_new: "TTLCache_reachable (TTLCache_constructor cfg lg ls now)"
| v2_set: "TTLCache_reachable s \<Longrightarrow> TTLCache_reachable (TTLCache_set t1 t2 key v ttlMs s)"
| v2_get: "TTLCache_reachable s \<Longrightarrow> TTLCache_reachable (snd (TTLCache_get now key s))"
| v2_delete: "TTLCache_reachable s \<Longrightarrow> TTLCache_reachable (snd (TTLCache_delete key s))"
| v2_clear: "TTLCache_reachable s \<Longrightarrow> TTLCache_reachable (TTLCache_clear s)"
| v2_updateConfig: "TTLCache_reachable s \<Longrightarrow> TTLCache_reachable (updateConfig cfg s)"

subsection \<open>Example states\<close>

text \<open>
  The runs that gave \<open>c3Cache\<close>, on a \<open>TTLCache\<close>: \<open>set A\<close>, \<open>set B\<close>, \<open>set C\<close> at the times 10, 20
  and 30; and \<open>set A\<close>, \<open>set B\<close> within one millisecond.
\<close>

definition emptyStorage_v2 :: "TTLCacheEntry LocalStorage" where
  "emptyStorage_v2 = \<lparr>items = (\<lambda>k. None), quota_ok = True, calls = []\<rparr>"

definition c3TTLCache :: TTLCache where
  "c3TTLCache =
     TTLCache_set 30 30 ''C'' ''3'' None
       (TTLCache_set 20 20 ''B'' ''2'' None
         (TTLCache_set 10 10 ''A'' ''1'' None (TTLCache_constructor c3Config [] emptyStorage_v2 0)))"


section \<open>The first generation: the component CacheSystem\<close>


datatype LogKind = InfoLog | SuccessLog | ErrorLog | WarningLog










section \<open>Properties of the methods\<close>

subsection \<open>The Map operations\<close>

text \<open>
  The keys of a Map are unique. On a list with unique keys, filtering out the pairs with a key
  removes the one entry of that key, and the first pair with a key is its only one.
\<close>

lemma map_delete_keys: "map fst (map_delete k m) = removeAll k (map fst m)"
  by (induction m) (auto simp: map_delete_def)

lemma distinct_map_delete: "distinct (map fst m) \<Longrightarrow> distinct (map fst (map_delete k m))"
  by (simp add: map_delete_keys distinct_removeAll)

lemma map_set_keys:
  "map fst (map_set k v m) = (if k \<in> set (map fst m) then map fst m else map fst m @ [k])"
  by (induction m) auto

lemma distinct_map_set: "distinct (map fst m) \<Longrightarrow> distinct (map fst (map_set k v m))"
  by (simp add: map_set_keys)

lemma map_set_fresh: "k \<notin> set (map fst m) \<Longrightarrow> map_set k v m = m @ [(k, v)]"
  by (induction m) auto

lemma map_delete_fresh: "k \<notin> set (map fst m) \<Longrightarrow> map_delete k m = m"
  by (induction m) (auto simp: map_delete_def)

lemma map_delete_not_in: "k \<notin> set (map fst (map_delete k m))"
  by (simp add: map_delete_keys)



lemma map_of_map_delete: "map_of (map_delete k m) = (map_of m)(k := None)"
  by (induction m) (auto simp: fun_eq_iff map_delete_def)

lemma map_has_iff: "map_has k m \<longleftrightarrow> k \<in> set (map fst m)"
  by (simp add: map_has_def map_of_eq_None_iff)


lemma map_get_member:
  "distinct (map fst m) \<Longrightarrow> (k, e) \<in> set m \<Longrightarrow> map_get k m = Some e"
  by (simp add: map_get_def)

lemma map_get_SomeD: "map_get k m = Some e \<Longrightarrow> (k, e) \<in> set m"
  by (simp add: map_get_def map_of_SomeD)

lemma map_get_filter:
  assumes "distinct (map fst m)"
  shows "map_get k (filter P m) =
     (case map_get k m of None \<Rightarrow> None | Some e \<Rightarrow> if P (k, e) then Some e else None)"
  using assms
proof (induction m)
  case Nil
  then show ?case by (simp add: map_get_def)
next
  case (Cons p m)
  obtain k' e' where p: "p = (k', e')" by (cases p)
  from Cons.prems p have notin: "k' \<notin> fst ` set m" by simp
  then have none: "map_of m k' = None" by (simp add: map_of_eq_None_iff)
  from Cons show ?case
    using p none by (auto simp: map_get_def split: option.splits)
qed

subsection \<open>Live keys\<close>

lemma liveKey_member:
  "distinct (map fst m) \<Longrightarrow> p \<in> set m \<Longrightarrow> liveKey now m (fst p) = (now < expiresAt (snd p))"
  by (cases p) (simp add: liveKey_def map_get_member del: distinct_map)

lemma filter_live_liveKey:
  assumes "distinct (map fst m)"
  shows "filter (\<lambda>p. now < expiresAt (snd p)) m = filter (\<lambda>p. liveKey now m (fst p)) m"
  by (rule filter_cong) (simp_all add: liveKey_member [OF assms])

lemma live_keys_filter:
  assumes "distinct (map fst m)"
  shows "map fst (filter (\<lambda>p. now < expiresAt (snd p)) m) = filter (liveKey now m) (map fst m)"
  by (simp add: filter_live_liveKey [OF assms] filter_map comp_def)

lemma liveKey_resident: "liveKey now m k \<Longrightarrow> k \<in> set (map fst m)"
  by (auto simp: liveKey_def map_get_def split: option.splits dest: map_of_SomeD intro: rev_image_eqI)

lemma live_count:
  assumes "distinct (map fst m)"
  shows "length (filter (\<lambda>p. now < expiresAt (snd p)) m) = card {k. liveKey now m k}"
proof -
  have eq: "{k. liveKey now m k} = set (filter (liveKey now m) (map fst m))"
    using liveKey_resident [of now m] by auto
  have dist: "distinct (filter (liveKey now m) (map fst m))"
    using assms by simp
  have "card {k. liveKey now m k} = length (filter (liveKey now m) (map fst m))"
    unfolding eq using dist by (rule distinct_card)
  also have "\<dots> = length (map fst (filter (\<lambda>p. now < expiresAt (snd p)) m))"
    by (simp only: live_keys_filter [OF assms])
  finally show ?thesis by simp
qed

lemma map_get_filter_live:
  assumes "distinct (map fst m)"
  shows "map_get k (filter (\<lambda>p. now < expiresAt (snd p)) m) =
     (if liveKey now m k then map_get k m else None)"
  by (simp add: map_get_filter [OF assms] liveKey_def split: option.splits)

subsection \<open>cleanupExpired\<close>

text \<open>On a Map, \<open>cleanupExpired\<close> keeps exactly the entries that are live, in their order.\<close>

lemma collectExpired_eq:
  "collectExpired now c = map fst (filter (\<lambda>p. now \<ge> expiresAt (snd p)) c)"
  by (induction now c rule: collectExpired.induct) auto


lemma deleteAll_cache:
  "cache (deleteAll ks s) = filter (\<lambda>p. fst p \<notin> set ks) (cache s)"
  by (induction ks s rule: deleteAll.induct) (auto simp: log_def map_delete_def intro: filter_cong)

lemma deleteAll_config: "config (deleteAll ks s) = config s"
  by (induction ks s rule: deleteAll.induct) (auto simp: log_def)



lemma cleanupExpired_cache:
  assumes "distinct (map fst (cache s))"
  shows "cache (cleanupExpired now s) = filter (\<lambda>p. now < expiresAt (snd p)) (cache s)"
proof -
  have "\<And>p. p \<in> set (cache s) \<Longrightarrow>
    (fst p \<notin> set (collectExpired now (cache s))) = (now < expiresAt (snd p))"
  proof -
    fix p assume p: "p \<in> set (cache s)"
    show "(fst p \<notin> set (collectExpired now (cache s))) = (now < expiresAt (snd p))"
    proof
      assume "fst p \<notin> set (collectExpired now (cache s))"
      with p show "now < expiresAt (snd p)"
        by (force simp: collectExpired_eq)
    next
      assume l: "now < expiresAt (snd p)"
      show "fst p \<notin> set (collectExpired now (cache s))"
      proof
        assume "fst p \<in> set (collectExpired now (cache s))"
        then obtain q where q: "q \<in> set (cache s)" "fst q = fst p" "now \<ge> expiresAt (snd q)"
          by (auto simp: collectExpired_eq)
        from assms p q(1,2) have "q = p"
          by (metis eq_key_imp_eq_value prod.collapse)
        with q(3) l show False by simp
      qed
    qed
  qed
  then have "filter (\<lambda>p. fst p \<notin> set (collectExpired now (cache s))) (cache s) =
     filter (\<lambda>p. now < expiresAt (snd p)) (cache s)"
    by (intro filter_cong refl)
  then show ?thesis
    unfolding cleanupExpired_def deleteAll_cache .
qed

lemma cleanupExpired_config: "config (cleanupExpired now s) = config s"
  by (simp add: cleanupExpired_def deleteAll_config)



lemma cleanupExpired_distinct:
  "distinct (map fst (cache s)) \<Longrightarrow> distinct (map fst (cache (cleanupExpired now s)))"
  by (simp add: cleanupExpired_def deleteAll_cache distinct_map_filter)


subsection \<open>saveToStorage, loadFromStorage and the constructor\<close>

lemma saveToStorage_cache: "cache (saveToStorage s) = cache s"
  by (simp add: saveToStorage_def setItem_def log_def Let_def split: prod.splits option.splits)

lemma saveToStorage_config: "config (saveToStorage s) = config s"
  by (simp add: saveToStorage_def setItem_def log_def Let_def split: prod.splits option.splits)


lemma saveToStorage_items:
  "items (localStorage (saveToStorage s)) =
     (if quota_ok (localStorage s)
      then (items (localStorage s))(storageKey (config s) \<mapsto> JsonText (toElems (cache s)))
      else items (localStorage s))"
  by (simp add: saveToStorage_def setItem_def log_def Let_def JSON_stringify_def)

lemma saveToStorage_calls:
  "calls (localStorage (saveToStorage s)) =
     calls (localStorage s) @ [SetItem (storageKey (config s)) (JsonText (toElems (cache s)))]"
  by (simp add: saveToStorage_def setItem_def log_def Let_def JSON_stringify_def)

text \<open>The loop on any array: what it inserts are live pairs of the array.\<close>

lemma loadLoop_distinct:
  "distinct (map fst c) \<Longrightarrow> distinct (map fst (fst (loadLoop now d (c, l, e))))"
  by (induction now d "(c, l, e)" arbitrary: c l e rule: loadLoop.induct)
    (auto simp: distinct_map_set)



lemma loadLoop_NotAPair:
  "NotAPair \<in> set d \<Longrightarrow> snd (loadLoop now d (c, l, e)) = Inl TypeError"
  by (induction now d "(c, l, e)" arbitrary: c l e rule: loadLoop.induct) auto

text \<open>The loop on an array of pairs.\<close>

lemma toElems_Cons: "toElems ((k, x) # d) = KeyEntry k x # toElems d"
  by (simp add: toElems_def)

lemma toElems_Nil: "toElems [] = []"
  by (simp add: toElems_def)

lemma toElems_member: "KeyEntry k x \<in> set (toElems d) \<longleftrightarrow> (k, x) \<in> set d"
  by (auto simp: toElems_def)

lemma toElems_no_NotAPair: "NotAPair \<notin> set (toElems d)"
  by (auto simp: toElems_def)

lemma all_pairs_toElems: "NotAPair \<notin> set d \<Longrightarrow> \<exists>ps. d = toElems ps"
proof (induction d)
  case Nil
  have "[] = toElems []" by (simp add: toElems_Nil)
  then show ?case by blast
next
  case (Cons x d)
  then obtain ps where ps: "d = toElems ps" by auto
  from Cons.prems obtain k y where x: "x = KeyEntry k y" by (cases x) auto
  have "x # d = toElems ((k, y) # ps)" by (simp add: x ps toElems_Cons)
  then show ?case by blast
qed

lemma loadLoop_fresh:
  "distinct (map fst d) \<Longrightarrow> set (map fst d) \<inter> set (map fst c) = {} \<Longrightarrow>
   loadLoop now (toElems d) (c, l, e) =
     (c @ filter (\<lambda>p. now < expiresAt (snd p)) d,
      Inr (l + length (filter (\<lambda>p. now < expiresAt (snd p)) d),
           e + length (filter (\<lambda>p. \<not> now < expiresAt (snd p)) d)))"
proof (induction d arbitrary: c l e)
  case Nil
  then show ?case by (simp add: toElems_Nil)
next
  case (Cons p d)
  obtain k x where p: "p = (k, x)" by (cases p)
  show ?case
  proof (cases "now < expiresAt x")
    case True
    from Cons.prems p have fresh: "k \<notin> set (map fst c)" by auto
    from Cons.prems p have d: "distinct (map fst d)"
      and disj: "set (map fst d) \<inter> set (map fst (map_set k x c)) = {}"
      by (auto simp: map_set_keys)
    show ?thesis
      using Cons.IH [OF d disj] True p fresh by (simp add: map_set_fresh toElems_Cons)
  next
    case False
    from Cons.prems p have d: "distinct (map fst d)"
      and disj: "set (map fst d) \<inter> set (map fst c) = {}"
      by auto
    show ?thesis
      using Cons.IH [OF d disj] False p by (simp add: toElems_Cons)
  qed
qed



text \<open>The constructor.\<close>

lemma constructor_cache:
  "cache (constructor cfg lg ls now) =
     (case items ls (storageKey cfg) of
        Some (JsonText d) \<Rightarrow> fst (loadLoop now d ([], 0, 0))
      | _ \<Rightarrow> [])"
  by (auto simp: constructor_def loadFromStorage_def getItem_def Let_def log_def
      split: option.splits sum.splits prod.splits json_text.splits)

lemma constructor_distinct: "distinct (map fst (cache (constructor cfg lg ls now)))"
  by (simp add: constructor_cache loadLoop_distinct del: distinct_map
      split: option.splits json_text.splits)


lemma constructor_onLog:
  "onLog (constructor cfg lg ls now) =
     (case items ls (storageKey cfg) of
        None \<Rightarrow> lg
      | Some EmptyText \<Rightarrow> lg
      | Some Garbage \<Rightarrow> lg @ [\<lparr>ltype = ParseError, message = FailedToParse\<rparr>]
      | Some (JsonText d) \<Rightarrow>
          (case snd (loadLoop now d ([], 0, 0)) of
             Inl error \<Rightarrow> lg @ [\<lparr>ltype = ParseError, message = FailedToParse\<rparr>]
           | Inr (loaded, expired) \<Rightarrow>
               lg @ [\<lparr>ltype = Loaded, message = LoadedEntries loaded expired\<rparr>]))"
  by (auto simp: constructor_def loadFromStorage_def getItem_def Let_def log_def
      split: option.splits sum.splits prod.splits json_text.splits)

lemma load_after_save:
  assumes d: "distinct (map fst (cache s))"
    and q: "quota_ok (localStorage s)"
    and k: "storageKey cfg = storageKey (config s)"
  shows "cache (constructor cfg lg (localStorage (saveToStorage s)) now) =
     filter (\<lambda>p. now < expiresAt (snd p)) (cache s)"
proof -
  have "loadLoop now (toElems (cache s)) ([], 0, 0) =
     ([] @ filter (\<lambda>p. now < expiresAt (snd p)) (cache s),
      Inr (0 + length (filter (\<lambda>p. now < expiresAt (snd p)) (cache s)),
           0 + length (filter (\<lambda>p. \<not> now < expiresAt (snd p)) (cache s))))"
    using d by (intro loadLoop_fresh) simp_all
  then show ?thesis
    using q k by (simp add: constructor_cache saveToStorage_items)
qed

text \<open>
  An array with an element that is not a pair: the loop throws at that element, the \<open>catch\<close>
  emits \<open>parse-error\<close> and does not clear the Map, so the live pairs before the element stay
  resident.
\<close>

lemma loadLoop_throws:
  "loadLoop now (toElems ps @ NotAPair # rest) (c, l, e) =
     (fst (loadLoop now (toElems ps) (c, l, e)), Inl TypeError)"
  by (induction ps arbitrary: c l e) (auto simp: toElems_Cons toElems_Nil)

lemma constructor_partial_load:
  assumes "items ls (storageKey cfg) = Some (JsonText (toElems ps @ NotAPair # rest))"
    and "distinct (map fst ps)"
  shows "cache (constructor cfg lg ls now) = filter (\<lambda>p. now < expiresAt (snd p)) ps
    \<and> onLog (constructor cfg lg ls now) = lg @ [\<lparr>ltype = ParseError, message = FailedToParse\<rparr>]"
proof -
  have "fst (loadLoop now (toElems ps) ([], 0, 0)) = filter (\<lambda>p. now < expiresAt (snd p)) ps"
    using loadLoop_fresh [OF assms(2), of "[]" now 0 0] by simp
  with assms(1) show ?thesis
    by (simp add: constructor_cache constructor_onLog loadLoop_throws)
qed

subsection \<open>set\<close>




lemma set_cache_config: "config (set_cache t1 t2 key v ttlMs s) = config s"
  by (simp add: set_cache_def Let_def saveToStorage_config log_def cleanupExpired_config)



lemma set_cache_distinct:
  assumes "distinct (map fst (cache s))"
  shows "distinct (map fst (cache (set_cache t1 t2 key v ttlMs s)))"
proof -
  have d1: "distinct (map fst (cache (cleanupExpired t1 s)))"
    using assms by (rule cleanupExpired_distinct)
  show ?thesis
    using d1
    by (auto simp: set_cache_def Let_def log_def saveToStorage_cache distinct_map_delete
        distinct_map_set simp del: distinct_map split: option.splits)
qed



subsection \<open>get\<close>


lemma get_cache:
  assumes "distinct (map fst (cache s))" and "t1 \<le> t2"
  shows "cache (snd (get t1 t2 key s)) =
     (case map_get key (cache s) of
        None \<Rightarrow> filter (\<lambda>p. t1 < expiresAt (snd p)) (cache s)
      | Some e \<Rightarrow>
          if t2 < expiresAt e
          then map_delete key (filter (\<lambda>p. t1 < expiresAt (snd p)) (cache s)) @ [(key, e)]
          else map_delete key (filter (\<lambda>p. t1 < expiresAt (snd p)) (cache s)))"
proof (cases "map_get key (cache s)")
  case None
  then show ?thesis
    by (simp add: get_def Let_def cleanupExpired_cache [OF assms(1)] map_get_filter [OF assms(1)]
        log_def)
next
  case (Some e)
  let ?c1 = "filter (\<lambda>p. t1 < expiresAt (snd p)) (cache s)"
  show ?thesis
  proof (cases "t1 < expiresAt e")
    case True
    have "map_set key e (map_delete key ?c1) = map_delete key ?c1 @ [(key, e)]"
      by (rule map_set_fresh) (rule map_delete_not_in)
    with Some True show ?thesis
      by (simp add: get_def Let_def cleanupExpired_cache [OF assms(1)]
          map_get_filter [OF assms(1)] log_def)
  next
    case False
    with assms(2) have nl: "\<not> t2 < expiresAt e" by simp
    have "key \<notin> set (map fst ?c1)"
    proof
      assume "key \<in> set (map fst ?c1)"
      then obtain e' where e': "(key, e') \<in> set (cache s)" "t1 < expiresAt e'" by auto
      from Some have "(key, e) \<in> set (cache s)" by (simp add: map_get_def map_of_SomeD)
      with e'(1) assms(1) have "e' = e" by (meson eq_key_imp_eq_value)
      with e'(2) False show False by simp
    qed
    then have "map_delete key ?c1 = ?c1" by (rule map_delete_fresh)
    with Some False nl show ?thesis
      by (simp add: get_def Let_def cleanupExpired_cache [OF assms(1)]
          map_get_filter [OF assms(1)] log_def)
  qed
qed

lemma get_distinct:
  assumes "distinct (map fst (cache s))"
  shows "distinct (map fst (cache (snd (get t1 t2 key s))))"
proof -
  have d1: "distinct (map fst (cache (cleanupExpired t1 s)))"
    using assms by (rule cleanupExpired_distinct)
  show ?thesis
    using d1
    by (auto simp: get_def Let_def log_def distinct_map_delete distinct_map_set
        simp del: distinct_map split: option.splits)
qed


subsection \<open>delete and clear\<close>

lemma delete_cache: "cache (snd (delete key s)) = map_delete key (cache s)"
  by (simp add: delete_def Let_def saveToStorage_cache log_def)

lemma clear_cache: "cache (clear s) = []"
  by (simp add: clear_def saveToStorage_cache log_def)

subsection \<open>Reachable states have unique keys\<close>

lemma reachable_distinct: "reachable s \<Longrightarrow> distinct (map fst (cache s))"
proof (induction rule: reachable.induct)
  case (r_new cfg lg ls now)
  show ?case by (rule constructor_distinct)
next
  case (r_set s t1 t2 key v ttlMs)
  then show ?case by (simp only: set_cache_distinct)
next
  case (r_get s t1 t2 key)
  then show ?case by (simp only: get_distinct)
next
  case (r_delete s key)
  then show ?case by (simp only: delete_cache distinct_map_delete)
next
  case (r_clear s)
  show ?case by (simp add: clear_cache)
next
  case (r_getEntries s now)
  then show ?case by (simp add: getEntries_def Let_def cleanupExpired_distinct del: distinct_map)
next
  case (r_getSize s now)
  then show ?case by (simp add: getSize_def Let_def cleanupExpired_distinct del: distinct_map)
next
  case (r_has s now key)
  then show ?case by (simp add: has_def Let_def cleanupExpired_distinct del: distinct_map)
qed

lemma c3Cache_reachable: "reachable c3Cache"
  unfolding c3Cache_def by (intro reachable.intros)

lemma c3Cache_cache:
  "cache c3Cache =
     [(''A'', \<lparr>val = ''1'', expiresAt = 10010\<rparr>),
      (''B'', \<lparr>val = ''2'', expiresAt = 10020\<rparr>),
      (''C'', \<lparr>val = ''3'', expiresAt = 10030\<rparr>)]"
  by code_simp


subsection \<open>The order of the keys\<close>











subsection \<open>The resident count under the other methods\<close>

text \<open>
  Only \<open>set\<close> and the constructor add entries: every other method leaves the resident count as
  it is or lowers it, and no method changes the configuration.
\<close>

lemma cleanupExpired_length: "length (cache (cleanupExpired now s)) \<le> length (cache s)"
  by (simp add: cleanupExpired_def deleteAll_cache)

lemma get_length:
  assumes "distinct (map fst (cache s))" and "t1 \<le> t2"
  shows "length (cache (snd (get t1 t2 key s))) \<le> length (cache s)"
proof (cases "map_get key (cache s)")
  case None
  then show ?thesis by (simp add: get_cache [OF assms])
next
  case (Some e)
  let ?c1 = "filter (\<lambda>p. t1 < expiresAt (snd p)) (cache s)"
  have le: "length (map_delete key ?c1) \<le> length ?c1"
    unfolding map_delete_def by (rule length_filter_le)
  show ?thesis
  proof (cases "t2 < expiresAt e")
    case True
    with assms(2) have "t1 < expiresAt e" by simp
    with Some have "(key, e) \<in> set ?c1"
      by (simp add: map_get_SomeD)
    then have "length (map_delete key ?c1) < length ?c1"
      unfolding map_delete_def by (intro length_filter_less [of "(key, e)"]) simp_all
    then have "length (map_delete key ?c1) + 1 \<le> length (cache s)"
      using length_filter_le [of "\<lambda>p. t1 < expiresAt (snd p)" "cache s"] by linarith
    with Some True show ?thesis by (simp add: get_cache [OF assms])
  next
    case False
    have "length (map_delete key ?c1) \<le> length (cache s)"
      using le length_filter_le [of "\<lambda>p. t1 < expiresAt (snd p)" "cache s"] by linarith
    with Some False show ?thesis
      by (simp add: get_cache [OF assms])
  qed
qed

lemma other_methods_length:
  "length (cache (snd (delete key s))) \<le> length (cache s)"
  "length (cache (clear s)) \<le> length (cache s)"
  "length (cache (snd (has now key s))) \<le> length (cache s)"
  "length (cache (snd (getSize now s))) \<le> length (cache s)"
  "length (cache (snd (getEntries now s))) \<le> length (cache s)"
  by (simp_all add: delete_cache clear_cache map_delete_def has_def getSize_def getEntries_def
      Let_def cleanupExpired_length)

lemma methods_keep_config:
  "config (set_cache t1 t2 key v ttlMs s) = config s"
  "config (snd (get t1 t2 key s)) = config s"
  "config (snd (delete key s)) = config s"
  "config (clear s) = config s"
  "config (snd (has now key s)) = config s"
  "config (snd (getSize now s)) = config s"
  "config (snd (getEntries now s)) = config s"
  by (simp_all add: set_cache_config get_def delete_def clear_def has_def getSize_def
      getEntries_def Let_def log_def saveToStorage_config cleanupExpired_config
      split: option.splits)

subsection \<open>Order, count, TTL, has and delete of TTLLRUCache\<close>


lemma TTLLRUCache_getSize:
  assumes "reachable s"
  shows "fst (getSize now s) = card {k. liveKey now (cache s) k}
    \<and> fst (getSize now s) = length (cache (snd (getSize now s)))
    \<and> (\<forall>p \<in> set (cache (snd (getSize now s))). now < expiresAt (snd p))"
proof -
  have d: "distinct (map fst (cache s))"
    using assms by (rule reachable_distinct)
  show ?thesis
    by (simp add: getSize_def Let_def cleanupExpired_cache [OF d] live_count [OF d])
qed


lemma TTLLRUCache_has:
  assumes "reachable s"
  shows "fst (has now key s) = liveKey now (cache s) key
    \<and> getKeys (snd (has now key s)) = filter (liveKey now (cache s)) (getKeys s)"
proof -
  have d: "distinct (map fst (cache s))"
    using assms by (rule reachable_distinct)
  have "map_has key (filter (\<lambda>p. now < expiresAt (snd p)) (cache s)) = liveKey now (cache s) key"
    using map_get_filter [OF d, of key "\<lambda>p. now < expiresAt (snd p)"]
    by (simp add: map_has_def map_get_def liveKey_def split: option.splits)
  then show ?thesis
    by (simp add: has_def Let_def cleanupExpired_cache [OF d] getKeys_def live_keys_filter [OF d]
        rev_filter)
qed

lemma TTLLRUCache_delete:
  "fst (delete key s) = map_has key (cache s)
   \<and> cache (snd (delete key s)) = map_delete key (cache s)
   \<and> \<not> map_has key (cache (snd (delete key s)))
   \<and> (\<forall>k. k \<noteq> key \<longrightarrow> map_get k (cache (snd (delete key s))) = map_get k (cache s))
   \<and> calls (localStorage (snd (delete key s))) =
       calls (localStorage s) @
       (if map_has key (cache s)
        then [SetItem (storageKey (config s)) (JsonText (toElems (map_delete key (cache s))))] else [])
   \<and> (\<not> map_has key (cache s) \<longrightarrow>
        delete key s = (False, s) \<and> delete key (snd (delete key s)) = (False, s))"
proof -
  have absent: "delete key s = (False, s)" if "\<not> map_has key (cache s)"
  proof -
    from that have "map_delete key (cache s) = cache s"
      by (simp add: map_has_iff map_delete_fresh del: set_map)
    with that show ?thesis by (simp add: delete_def Let_def)
  qed
  have gone: "\<not> map_has key (map_delete key (cache s))"
    using map_delete_not_in [of key "cache s"] by (simp add: map_has_iff del: set_map)
  have others: "map_get k (map_delete key (cache s)) = map_get k (cache s)" if "k \<noteq> key" for k
    using that by (simp add: map_get_def map_of_map_delete)
  have trace: "calls (localStorage (snd (delete key s))) =
       calls (localStorage s) @
       (if map_has key (cache s)
        then [SetItem (storageKey (config s)) (JsonText (toElems (map_delete key (cache s))))] else [])"
    by (simp add: delete_def Let_def saveToStorage_calls log_def)
  have res: "fst (delete key s) = map_has key (cache s)"
    by (simp add: delete_def Let_def)
  show ?thesis
    using absent gone others trace res by (simp add: delete_cache)
qed

section \<open>Properties of TTLCache\<close>

subsection \<open>The timestamp order of getAll\<close>



lemma TTLCache_deleteAll_cache:
  "cache_v2 (TTLCache_deleteAll ks s) = filter (\<lambda>p. fst p \<notin> set ks) (cache_v2 s)"
  by (induction ks s rule: TTLCache_deleteAll.induct)
    (auto simp: TTLCache_log_def map_delete_def intro: filter_cong)



lemma TTLCache_saveToStorage_cache: "cache_v2 (TTLCache_saveToStorage s) = cache_v2 s"
  by (simp add: TTLCache_saveToStorage_def setItem_def TTLCache_log_def Let_def)

lemma TTLCache_saveToStorage_calls:
  "calls (localStorage_v2 (TTLCache_saveToStorage s)) =
     calls (localStorage_v2 s)
     @ [SetItem (storageKey (config_v2 s)) (JsonText (toElems (cache_v2 s)))]"
  by (simp add: TTLCache_saveToStorage_def setItem_def TTLCache_log_def Let_def JSON_stringify_def)




lemma TTLCache_get_result:
  "fst (TTLCache_get now key s) =
     (case map_get key (cache_v2 s) of
        None \<Rightarrow> None
      | Some e \<Rightarrow> if now < expiresAt e then Some (val e) else None)"
  by (simp add: TTLCache_get_def split: option.splits)

lemma TTLCache_get_live:
  "(\<exists>x. fst (TTLCache_get now key s) = Some x) = liveKey now (cache_v2 s) key"
  by (simp add: TTLCache_get_result liveKey_def split: option.splits)






subsection \<open>Reachable states of TTLCache have unique keys\<close>

lemma TTLCache_cleanupExpired_distinct:
  "distinct (map fst (cache_v2 s)) \<Longrightarrow> distinct (map fst (cache_v2 (TTLCache_cleanupExpired now s)))"
  by (simp add: TTLCache_cleanupExpired_def TTLCache_deleteAll_cache distinct_map_filter)

lemma TTLCache_set_distinct:
  assumes "distinct (map fst (cache_v2 s))"
  shows "distinct (map fst (cache_v2 (TTLCache_set t1 t2 key v ttlMs s)))"
proof -
  note d1 = TTLCache_cleanupExpired_distinct [OF assms, of t1]
  show ?thesis
    using d1
    by (auto simp: TTLCache_set_def Let_def TTLCache_saveToStorage_cache TTLCache_log_def
        distinct_map_set distinct_map_delete split: option.splits simp del: distinct_map)
qed

lemma TTLCache_get_distinct:
  assumes "distinct (map fst (cache_v2 s))"
  shows "distinct (map fst (cache_v2 (snd (TTLCache_get now key s))))"
  using assms
  by (auto simp: TTLCache_get_def TTLCache_saveToStorage_cache TTLCache_log_def
      distinct_map_set distinct_map_delete split: option.splits simp del: distinct_map)

lemma TTLCache_loadLoop_distinct:
  "distinct (map fst (fst acc)) \<Longrightarrow> distinct (map fst (fst (TTLCache_loadLoop now d acc)))"
proof (induction now d acc rule: TTLCache_loadLoop.induct)
  case (3 now key entry rest c loadedCount expiredCount)
  then show ?case by (auto simp: distinct_map_set simp del: distinct_map)
qed simp_all

lemma TTLCache_constructor_distinct:
  "distinct (map fst (cache_v2 (TTLCache_constructor cfg lg ls now)))"
proof -
  have "distinct (map fst (fst (TTLCache_loadLoop now d ([], 0, 0))))" for d
    by (rule TTLCache_loadLoop_distinct) simp
  then have "\<And>d c r. TTLCache_loadLoop now d ([], 0, 0) = (c, r) \<Longrightarrow> distinct (map fst c)"
    by (metis fst_conv)
  then show ?thesis
    by (auto simp: TTLCache_constructor_def TTLCache_loadFromStorage_def getItem_def
        TTLCache_log_def Let_def split: option.splits sum.splits prod.splits
        simp del: distinct_map)
qed

lemma TTLCache_reachable_distinct:
  "TTLCache_reachable s \<Longrightarrow> distinct (map fst (cache_v2 s))"
proof (induction rule: TTLCache_reachable.induct)
  case (v2_new cfg lg ls now)
  show ?case by (rule TTLCache_constructor_distinct)
next
  case (v2_set s t1 t2 key v ttlMs)
  then show ?case by (intro TTLCache_set_distinct)
next
  case (v2_get s now key)
  then show ?case by (intro TTLCache_get_distinct)
next
  case (v2_delete s key)
  then show ?case
    by (simp add: TTLCache_delete_def Let_def TTLCache_saveToStorage_cache TTLCache_log_def
        distinct_map_delete del: distinct_map)
next
  case (v2_clear s)
  show ?case by (simp add: TTLCache_clear_def TTLCache_saveToStorage_cache TTLCache_log_def)
next
  case (v2_updateConfig s cfg)
  then show ?case by (simp add: updateConfig_def)
qed

lemma c3TTLCache_reachable: "TTLCache_reachable c3TTLCache"
  unfolding c3TTLCache_def by (intro v2_set v2_new)


lemma resident_count:
  "distinct (map fst m) \<Longrightarrow> length m = card {k. map_has k m}"
proof -
  assume d: "distinct (map fst m)"
  have "{k. map_has k m} = set (map fst m)"
    by (auto simp: map_has_iff simp del: set_map)
  then have "card {k. map_has k m} = length (map fst m)"
    using distinct_card [OF d] by simp
  then show ?thesis by simp
qed


subsection \<open>The order of getAll after a use\<close>







subsection \<open>Resident, live and expired keys\<close>

lemma resident_live_expired:
  assumes d: "distinct (map fst m)"
  shows "length m = card {k. liveKey now m k} + card {k. map_has k m \<and> \<not> liveKey now m k}"
proof -
  let ?L = "{k. liveKey now m k}" and ?E = "{k. map_has k m \<and> \<not> liveKey now m k}"
  have res: "{k. map_has k m} = set (map fst m)"
    by (auto simp: map_has_iff simp del: set_map)
  have sub: "?L \<subseteq> {k. map_has k m}"
    using liveKey_resident [of now m] by (auto simp: map_has_iff simp del: set_map)
  have un: "{k. map_has k m} = ?L \<union> ?E" using sub by auto
  have fin: "finite {k. map_has k m}" unfolding res by simp
  then have "finite ?L" "finite ?E" using un by simp_all
  moreover have "?L \<inter> ?E = {}" by auto
  ultimately have "card (?L \<union> ?E) = card ?L + card ?E" by (rule card_Un_disjoint)
  with un have "card {k. map_has k m} = card ?L + card ?E" by simp
  with resident_count [OF d] show ?thesis by simp
qed

lemma has_resident:
  fixes m :: "(string \<times> 'a CacheEntry_scheme) list"
  shows "map_has key m =
     (liveKey now m key \<or> (\<exists>e. map_get key m = Some e \<and> expiresAt e \<le> now))"
  by (auto simp: map_has_def map_get_def liveKey_def split: option.splits)

lemma TTLCache_get_miss_has:
  assumes "fst (TTLCache_get now key s) = None"
  shows "\<not> map_has key (cache_v2 (snd (TTLCache_get now key s)))"
proof (cases "map_get key (cache_v2 s)")
  case None
  then show ?thesis by (simp add: TTLCache_get_def TTLCache_log_def map_has_def map_get_def)
next
  case (Some e)
  with assms have "\<not> now < expiresAt e"
    by (simp add: TTLCache_get_result split: if_splits)
  with Some map_delete_not_in [of key "cache_v2 s"] show ?thesis
    by (simp add: TTLCache_get_def TTLCache_log_def TTLCache_saveToStorage_cache map_has_iff
        del: set_map)
qed

subsection \<open>delete of TTLCache\<close>


lemma TTLCache_delete_cache:
  "cache_v2 (snd (TTLCache_delete key s)) = map_delete key (cache_v2 s)"
  by (simp add: TTLCache_delete_def Let_def TTLCache_saveToStorage_cache TTLCache_log_def)

lemma TTLCache_delete_absent:
  assumes "\<not> map_has key (cache_v2 s)"
  shows "TTLCache_delete key s = (JSUndefined, s)"
proof -
  from assms have "map_delete key (cache_v2 s) = cache_v2 s"
    by (simp add: map_has_iff map_delete_fresh del: set_map)
  with assms show ?thesis by (simp add: TTLCache_delete_def Let_def)
qed

lemma TTLCache_delete_calls:
  "calls (localStorage_v2 (snd (TTLCache_delete key s))) =
     calls (localStorage_v2 s) @
     (if map_has key (cache_v2 s)
      then [SetItem (storageKey (config_v2 s)) (JsonText (toElems (map_delete key (cache_v2 s))))]
      else [])"
  by (simp add: TTLCache_delete_def Let_def TTLCache_saveToStorage_calls TTLCache_log_def)

section \<open>Properties of CacheSystem\<close>




section \<open>The test plan, run on the model\<close>

text \<open>
  The cases of the repository's test plan (groups A to D), evaluated on the embedding: basic
  operations, expiry after the TTL and the default TTL, eviction of the LRU entry with the
  recency refreshed by \<open>get\<close> and by \<open>set\<close>, and loading from \<open>localStorage\<close>.
\<close>

lemma test_A_basic:
  "fst (get 20 20 ''a'' (set_cache 10 10 ''a'' ''1'' None (constructor c3Config [] emptyStorage 0)))
     = Some ''1''"
  "fst (get 30 30 ''a''
     (set_cache 20 20 ''a'' ''2'' None
       (set_cache 10 10 ''a'' ''1'' None (constructor c3Config [] emptyStorage 0)))) = Some ''2''"
  "fst (get 30 30 ''a''
     (snd (delete ''a''
       (set_cache 10 10 ''a'' ''1'' None (constructor c3Config [] emptyStorage 0))))) = None"
  "fst (get 40 40 ''b''
     (clear (set_cache 20 20 ''b'' ''2'' None
       (set_cache 10 10 ''a'' ''1'' None (constructor c3Config [] emptyStorage 0))))) = None"
  "fst (getSize 30 (set_cache 20 20 ''b'' ''2'' None
       (set_cache 10 10 ''a'' ''1'' None (constructor c3Config [] emptyStorage 0)))) = 2"
  by code_simp+

lemma test_B_ttl:
  "fst (get 3010 3010 ''a''
     (set_cache 10 10 ''a'' ''1'' (Some 5000) (constructor c3Config [] emptyStorage 0))) = Some ''1''"
  "fst (get 4010 4010 ''a''
     (set_cache 10 10 ''a'' ''1'' (Some 3000) (constructor c3Config [] emptyStorage 0))) = None"
  "fst (getSize 2020 (snd (get 2010 2010 ''a''
     (set_cache 10 10 ''a'' ''1'' (Some 1000) (constructor c3Config [] emptyStorage 0))))) = 0"
  "fst (has 2020 ''a'' (set_cache 2010 2010 ''b'' ''2'' None
     (set_cache 10 10 ''a'' ''1'' (Some 1000) (constructor c3Config [] emptyStorage 0)))) = False"
  "fst (get 10010 10010 ''a''
     (set_cache 10 10 ''a'' ''1'' None (constructor c3Config [] emptyStorage 0))) = None"
  by code_simp+

lemma test_C_lru:
  "fst (has 50 ''A'' (set_cache 40 40 ''D'' ''4'' None c3Cache)) = False"
  "getKeys (set_cache 50 50 ''D'' ''4'' None (snd (get 40 40 ''A'' c3Cache))) = [''D'', ''A'', ''C'']"
  "getKeys (set_cache 50 50 ''D'' ''4'' None (set_cache 40 40 ''A'' ''1-updated'' None c3Cache)) =
     [''D'', ''A'', ''C'']"
  "fst (getSize 50 (set_cache 40 40 ''D'' ''4'' None c3Cache)) = 3"
  by code_simp+

lemma test_D_persistence:
  "fst (get 40 40 ''A'' (constructor c3Config [] (localStorage c3Cache) 40)) = Some ''1''"
  "fst (get 10015 10015 ''A'' (constructor c3Config [] (localStorage c3Cache) 10015)) = None"
  "fst (getSize 0 (constructor d4Config [] d4Storage 0)) = 0"
  by code_simp+

section \<open>The claims\<close>

subsection \<open>C1: eviction and the size bound\<close>




subsection \<open>C2: get\<close>



subsection \<open>C3: the recency order\<close>




subsection \<open>C4: size\<close>

text \<open>
  Claim C4, as stated, fails on \<open>TTLCache\<close>: its \<open>size()\<close> is \<open>Map.size\<close>, without a sweep. After
  \<open>set A\<close>, \<open>set B\<close>, \<open>set C\<close> at the times 10, 20 and 30 with the default TTL of 10000, the
  resident keys are A, B and C; at the time 10015 the keys B and C are live and A is not, and
  \<open>size()\<close> is 3.
\<close>

theorem size_unswept_counterexample:
  "TTLCache_reachable c3TTLCache
   \<and> map fst (cache_v2 c3TTLCache) = [''A'', ''B'', ''C'']
   \<and> \<not> liveKey 10015 (cache_v2 c3TTLCache) ''A''
   \<and> liveKey 10015 (cache_v2 c3TTLCache) ''B''
   \<and> liveKey 10015 (cache_v2 c3TTLCache) ''C''
   \<and> TTLCache_size c3TTLCache = 3"
proof -
  have "map fst (cache_v2 c3TTLCache) = [''A'', ''B'', ''C'']" by code_simp
  moreover have "\<not> liveKey 10015 (cache_v2 c3TTLCache) ''A''" by code_simp
  moreover have "liveKey 10015 (cache_v2 c3TTLCache) ''B''" by code_simp
  moreover have "liveKey 10015 (cache_v2 c3TTLCache) ''C''" by code_simp
  moreover have "TTLCache_size c3TTLCache = 3" by code_simp
  ultimately show ?thesis
    using c3TTLCache_reachable by simp
qed

text \<open>
  Claim C4, amended. In every reachable state of \<open>TTLLRUCache\<close> and at every instant \<open>now\<close>,
  \<open>getSize()\<close> returns the number of keys that are resident and live (\<open>now < expiresAt\<close>); it
  returns the resident count after its sweep, and no entry that is expired at \<open>now\<close> is resident
  any more when it returns. In every reachable state of \<open>TTLCache\<close>, \<open>size()\<close> returns the number
  of resident keys: the keys that are live at \<open>now\<close> and the keys that are resident but not live,
  which stay counted until a \<open>get\<close> of the key or a \<open>set\<close> removes them.
\<close>

theorem size_contract:
  assumes "reachable s" and "TTLCache_reachable c"
  shows "(fst (getSize now s) = card {k. liveKey now (cache s) k}
      \<and> fst (getSize now s) = length (cache (snd (getSize now s)))
      \<and> (\<forall>p \<in> set (cache (snd (getSize now s))). now < expiresAt (snd p)))
    \<and> (TTLCache_size c = card {k. map_has k (cache_v2 c)}
      \<and> TTLCache_size c =
          card {k. liveKey now (cache_v2 c) k}
          + card {k. map_has k (cache_v2 c) \<and> \<not> liveKey now (cache_v2 c) k})"
proof (rule conjI)
  show "fst (getSize now s) = card {k. liveKey now (cache s) k}
      \<and> fst (getSize now s) = length (cache (snd (getSize now s)))
      \<and> (\<forall>p \<in> set (cache (snd (getSize now s))). now < expiresAt (snd p))"
    using assms(1) by (rule TTLLRUCache_getSize)
next
  have d: "distinct (map fst (cache_v2 c))"
    using assms(2) by (rule TTLCache_reachable_distinct)
  show "TTLCache_size c = card {k. map_has k (cache_v2 c)}
      \<and> TTLCache_size c =
          card {k. liveKey now (cache_v2 c) k}
          + card {k. map_has k (cache_v2 c) \<and> \<not> liveKey now (cache_v2 c) k}"
    unfolding TTLCache_size_def
    using resident_count [OF d] resident_live_expired [OF d, of now] by simp
qed

theorem size_contract_witness:
  "reachable c3Cache \<and> TTLCache_reachable c3TTLCache
   \<and> fst (getSize 10015 c3Cache) = 2
   \<and> card {k. liveKey 10015 (cache c3Cache) k} = 2
   \<and> cache (snd (getSize 10015 c3Cache)) =
       [(''B'', \<lparr>val = ''2'', expiresAt = 10020\<rparr>), (''C'', \<lparr>val = ''3'', expiresAt = 10030\<rparr>)]
   \<and> TTLCache_size c3TTLCache = 3
   \<and> card {k. map_has k (cache_v2 c3TTLCache)} = 3
   \<and> card {k. liveKey 10015 (cache_v2 c3TTLCache) k} = 2
   \<and> card {k. map_has k (cache_v2 c3TTLCache) \<and> \<not> liveKey 10015 (cache_v2 c3TTLCache) k} = 1"
proof -
  have size: "fst (getSize 10015 c3Cache) = 2" by code_simp
  have rest: "cache (snd (getSize 10015 c3Cache)) =
       [(''B'', \<lparr>val = ''2'', expiresAt = 10020\<rparr>), (''C'', \<lparr>val = ''3'', expiresAt = 10030\<rparr>)]"
    by code_simp
  have size2: "TTLCache_size c3TTLCache = 3" by code_simp
  have "length (filter (\<lambda>p. 10015 < expiresAt (snd p)) (cache_v2 c3TTLCache)) = 2"
    by code_simp
  with live_count [OF TTLCache_reachable_distinct [OF c3TTLCache_reachable], of 10015]
  have live2: "card {k. liveKey 10015 (cache_v2 c3TTLCache) k} = 2" by simp
  note w = size_contract [OF c3Cache_reachable c3TTLCache_reachable, of 10015]
  from w size have live: "card {k. liveKey 10015 (cache c3Cache) k} = 2" by simp
  from w size2 have res: "card {k. map_has k (cache_v2 c3TTLCache)} = 3" by simp
  from w size2 live2
  have dead: "card {k. map_has k (cache_v2 c3TTLCache)
      \<and> \<not> liveKey 10015 (cache_v2 c3TTLCache) k} = 1"
    by simp
  from size rest size2 live2 live res dead c3Cache_reachable c3TTLCache_reachable
  show ?thesis by simp
qed

subsection \<open>C5: the TTL of set\<close>




subsection \<open>C6: loading on construction\<close>



subsection \<open>C7: saving and loading\<close>

text \<open>
  Claim C7. Take any cache state (the keys of its Map unique, as in every reachable state) whose
  save succeeds, and construct a fresh cache with the same storage key on the \<open>localStorage\<close>
  that the save left, at a time \<open>t_load\<close> not before the time \<open>t_save\<close> of the save. The fresh
  cache holds exactly the entries (key, value and \<open>expiresAt\<close>) that were resident and live at
  \<open>t_save\<close>, minus those that are expired at \<open>t_load\<close>; looked up by key, it returns the saved
  entry for the keys that are live at \<open>t_load\<close> and nothing for the others.
\<close>

theorem save_load_roundtrip:
  assumes "distinct (map fst (cache s))"
    and "quota_ok (localStorage s)"
    and "storageKey cfg = storageKey (config s)"
    and "t_save \<le> t_load"
  shows "set (cache (constructor cfg lg (localStorage (saveToStorage s)) t_load)) =
      {p \<in> set (cache s). t_save < expiresAt (snd p)}
      - {p \<in> set (cache s). expiresAt (snd p) \<le> t_load}
    \<and> (\<forall>k. map_get k (cache (constructor cfg lg (localStorage (saveToStorage s)) t_load)) =
           (if liveKey t_load (cache s) k then map_get k (cache s) else None))"
proof -
  note loaded = load_after_save [OF assms(1-3), of lg t_load]
  have "{p \<in> set (cache s). t_load < expiresAt (snd p)} =
      {p \<in> set (cache s). t_save < expiresAt (snd p)}
      - {p \<in> set (cache s). expiresAt (snd p) \<le> t_load}"
    using assms(4) by auto
  then show ?thesis
    by (simp add: loaded map_get_filter_live [OF assms(1)])
qed

theorem save_load_roundtrip_witness:
  "distinct (map fst (cache c3Cache))
   \<and> quota_ok (localStorage c3Cache)
   \<and> storageKey c3Config = storageKey (config c3Cache)
   \<and> (30::int) \<le> 10015
   \<and> map_get ''A'' (cache (constructor c3Config [] (localStorage (saveToStorage c3Cache)) 10015))
       = None
   \<and> map_get ''B'' (cache (constructor c3Config [] (localStorage (saveToStorage c3Cache)) 10015))
       = Some \<lparr>val = ''2'', expiresAt = 10020\<rparr>
   \<and> map_get ''C'' (cache (constructor c3Config [] (localStorage (saveToStorage c3Cache)) 10015))
       = Some \<lparr>val = ''3'', expiresAt = 10030\<rparr>"
proof -
  have dist: "distinct (map fst (cache c3Cache))"
    using c3Cache_reachable by (rule reachable_distinct)
  have quota: "quota_ok (localStorage c3Cache)" by code_simp
  have key: "storageKey c3Config = storageKey (config c3Cache)" by code_simp
  have le: "(30::int) \<le> 10015" by simp
  have a: "\<not> liveKey 10015 (cache c3Cache) ''A''" by code_simp
  have b: "liveKey 10015 (cache c3Cache) ''B''" by code_simp
  have c: "liveKey 10015 (cache c3Cache) ''C''" by code_simp
  have vb: "map_get ''B'' (cache c3Cache) = Some \<lparr>val = ''2'', expiresAt = 10020\<rparr>" by code_simp
  have vc: "map_get ''C'' (cache c3Cache) = Some \<lparr>val = ''3'', expiresAt = 10030\<rparr>" by code_simp
  note rt = save_load_roundtrip [OF dist quota key le, of "[]", THEN conjunct2]
  from rt [THEN spec, of "''A''"] rt [THEN spec, of "''B''"] rt [THEN spec, of "''C''"]
    a b c vb vc dist quota key
  show ?thesis by (simp del: distinct_map)
qed

subsection \<open>C8: has\<close>

text \<open>
  Claim C8, as stated, fails on \<open>TTLCache\<close>: its \<open>has(key)\<close> is \<open>Map.has\<close>, without an expiry
  test. In the state after \<open>set A\<close>, \<open>set B\<close>, \<open>set C\<close> at 10, 20 and 30 the entry of A expires at
  10010; at 10015 the key is not live and a \<open>get\<close> of it returns absent, and \<open>has\<close> is true.
\<close>

theorem has_expired_counterexample:
  "TTLCache_reachable c3TTLCache
   \<and> map_get ''A'' (cache_v2 c3TTLCache) =
       Some \<lparr>val = ''1'', expiresAt = 10010, lastAccessAt = 10\<rparr>
   \<and> \<not> liveKey 10015 (cache_v2 c3TTLCache) ''A''
   \<and> fst (TTLCache_get 10015 ''A'' c3TTLCache) = None
   \<and> TTLCache_has ''A'' c3TTLCache"
proof -
  have "map_get ''A'' (cache_v2 c3TTLCache) =
       Some \<lparr>val = ''1'', expiresAt = 10010, lastAccessAt = 10\<rparr>" by code_simp
  moreover have "\<not> liveKey 10015 (cache_v2 c3TTLCache) ''A''" by code_simp
  moreover have "fst (TTLCache_get 10015 ''A'' c3TTLCache) = None" by code_simp
  moreover have "TTLCache_has ''A'' c3TTLCache" by code_simp
  ultimately show ?thesis
    using c3TTLCache_reachable by simp
qed

text \<open>
  Claim C8, amended. In every reachable state of \<open>TTLLRUCache\<close>, \<open>has(key)\<close> returns true exactly
  when the key is resident and live at the time of the call, and the call does not reorder the
  keys: the MRU-to-LRU key order after the call is the order before the call with the expired
  keys left out. In \<open>TTLCache\<close>, \<open>has(key)\<close> returns true exactly when the key is resident, live
  or expired, and writes nothing; \<open>get\<close> is the method that tests the expiry: it returns a value
  exactly for a live key, and after a \<open>get\<close> that returned absent \<open>has\<close> is false for the key.
\<close>

theorem has_contract:
  assumes "reachable s"
  shows "(fst (has now key s) = liveKey now (cache s) key
      \<and> getKeys (snd (has now key s)) = filter (liveKey now (cache s)) (getKeys s))
    \<and> (TTLCache_has key c =
          (liveKey now (cache_v2 c) key
           \<or> (\<exists>e. map_get key (cache_v2 c) = Some e \<and> expiresAt e \<le> now))
      \<and> (\<exists>x. fst (TTLCache_get now key c) = Some x) = liveKey now (cache_v2 c) key
      \<and> (fst (TTLCache_get now key c) = None \<longrightarrow>
           \<not> TTLCache_has key (snd (TTLCache_get now key c))))"
proof (intro conjI impI)
  show "fst (has now key s) = liveKey now (cache s) key"
    using TTLLRUCache_has [OF assms] by (rule conjunct1)
  show "getKeys (snd (has now key s)) = filter (liveKey now (cache s)) (getKeys s)"
    using TTLLRUCache_has [OF assms] by (rule conjunct2)
  show "TTLCache_has key c =
          (liveKey now (cache_v2 c) key
           \<or> (\<exists>e. map_get key (cache_v2 c) = Some e \<and> expiresAt e \<le> now))"
    unfolding TTLCache_has_def by (rule has_resident)
  show "(\<exists>x. fst (TTLCache_get now key c) = Some x) = liveKey now (cache_v2 c) key"
    by (rule TTLCache_get_live)
  show "\<not> TTLCache_has key (snd (TTLCache_get now key c))"
    if "fst (TTLCache_get now key c) = None"
    unfolding TTLCache_has_def using that by (rule TTLCache_get_miss_has)
qed

theorem has_contract_witness:
  "reachable c3Cache
   \<and> \<not> fst (has 10015 ''A'' c3Cache) \<and> \<not> liveKey 10015 (cache c3Cache) ''A''
   \<and> getKeys c3Cache = [''C'', ''B'', ''A'']
   \<and> getKeys (snd (has 10015 ''A'' c3Cache)) = [''C'', ''B'']
   \<and> TTLCache_has ''A'' c3TTLCache
   \<and> \<not> liveKey 10015 (cache_v2 c3TTLCache) ''A''
   \<and> fst (TTLCache_get 10015 ''A'' c3TTLCache) = None
   \<and> \<not> TTLCache_has ''A'' (snd (TTLCache_get 10015 ''A'' c3TTLCache))"
proof -
  have a: "\<not> fst (has 10015 ''A'' c3Cache)" by code_simp
  have k0: "getKeys c3Cache = [''C'', ''B'', ''A'']" by code_simp
  have k1: "filter (liveKey 10015 (cache c3Cache)) (getKeys c3Cache) = [''C'', ''B'']"
    by code_simp
  have h: "TTLCache_has ''A'' c3TTLCache" by code_simp
  have g: "fst (TTLCache_get 10015 ''A'' c3TTLCache) = None" by code_simp
  note w = has_contract [OF c3Cache_reachable, of 10015 "''A''" c3TTLCache]
  from w a have la: "\<not> liveKey 10015 (cache c3Cache) ''A''" by simp
  from w k1 have k2: "getKeys (snd (has 10015 ''A'' c3Cache)) = [''C'', ''B'']" by simp
  from w g have lb: "\<not> liveKey 10015 (cache_v2 c3TTLCache) ''A''" by simp
  from w g have gone: "\<not> TTLCache_has ''A'' (snd (TTLCache_get 10015 ''A'' c3TTLCache))"
    by simp
  from a k0 h g la k2 lb gone c3Cache_reachable show ?thesis by simp
qed

subsection \<open>C9: delete\<close>

text \<open>
  Claim C9, as stated, fails on \<open>TTLCache\<close>: its \<open>delete(key)\<close> is declared \<open>void\<close>. It returns
  \<open>undefined\<close>, not \<open>false\<close>, for the absent key Z, and \<open>undefined\<close> again for the resident key A.
\<close>

theorem delete_void_counterexample:
  "\<not> map_has ''Z'' (cache_v2 c3TTLCache)
   \<and> fst (TTLCache_delete ''Z'' c3TTLCache) = JSUndefined
   \<and> fst (TTLCache_delete ''Z'' c3TTLCache) \<noteq> JSBoolean False
   \<and> map_has ''A'' (cache_v2 c3TTLCache)
   \<and> fst (TTLCache_delete ''A'' c3TTLCache) = JSUndefined"
proof -
  have "\<not> map_has ''Z'' (cache_v2 c3TTLCache)" by code_simp
  moreover have "fst (TTLCache_delete ''Z'' c3TTLCache) = JSUndefined" by code_simp
  moreover have "map_has ''A'' (cache_v2 c3TTLCache)" by code_simp
  moreover have "fst (TTLCache_delete ''A'' c3TTLCache) = JSUndefined" by code_simp
  ultimately show ?thesis by simp
qed

text \<open>
  Claim C9, amended. \<open>TTLLRUCache.delete(key)\<close> removes the key if it is resident and returns
  whether anything was removed; the other keys keep their entries; \<open>localStorage.setItem\<close> is
  called exactly when a removal occurred; deleting an absent key returns false and leaves the
  whole state (cache, configuration, event log and \<open>localStorage\<close>) as it was, so that a second
  call returns false again. \<open>TTLCache.delete(key)\<close> has the same effect on the state (the key
  removed if resident, the other keys kept, \<open>setItem\<close> called exactly when a removal occurred,
  the whole state unchanged for an absent key) and returns nothing in every case.
\<close>

theorem delete_contract:
  "(fst (delete key s) = map_has key (cache s)
    \<and> cache (snd (delete key s)) = map_delete key (cache s)
    \<and> \<not> map_has key (cache (snd (delete key s)))
    \<and> (\<forall>k. k \<noteq> key \<longrightarrow> map_get k (cache (snd (delete key s))) = map_get k (cache s))
    \<and> calls (localStorage (snd (delete key s))) =
        calls (localStorage s) @
        (if map_has key (cache s)
         then [SetItem (storageKey (config s)) (JsonText (toElems (map_delete key (cache s))))]
         else [])
    \<and> (\<not> map_has key (cache s) \<longrightarrow>
         delete key s = (False, s) \<and> delete key (snd (delete key s)) = (False, s)))
   \<and> (fst (TTLCache_delete key c) = JSUndefined
    \<and> cache_v2 (snd (TTLCache_delete key c)) = map_delete key (cache_v2 c)
    \<and> \<not> map_has key (cache_v2 (snd (TTLCache_delete key c)))
    \<and> (\<forall>k. k \<noteq> key \<longrightarrow>
         map_get k (cache_v2 (snd (TTLCache_delete key c))) = map_get k (cache_v2 c))
    \<and> calls (localStorage_v2 (snd (TTLCache_delete key c))) =
        calls (localStorage_v2 c) @
        (if map_has key (cache_v2 c)
         then [SetItem (storageKey (config_v2 c))
                 (JsonText (toElems (map_delete key (cache_v2 c))))]
         else [])
    \<and> (\<not> map_has key (cache_v2 c) \<longrightarrow>
         TTLCache_delete key c = (JSUndefined, c)
         \<and> TTLCache_delete key (snd (TTLCache_delete key c)) = (JSUndefined, c)))"
proof (rule conjI)
  show "fst (delete key s) = map_has key (cache s)
    \<and> cache (snd (delete key s)) = map_delete key (cache s)
    \<and> \<not> map_has key (cache (snd (delete key s)))
    \<and> (\<forall>k. k \<noteq> key \<longrightarrow> map_get k (cache (snd (delete key s))) = map_get k (cache s))
    \<and> calls (localStorage (snd (delete key s))) =
        calls (localStorage s) @
        (if map_has key (cache s)
         then [SetItem (storageKey (config s)) (JsonText (toElems (map_delete key (cache s))))]
         else [])
    \<and> (\<not> map_has key (cache s) \<longrightarrow>
         delete key s = (False, s) \<and> delete key (snd (delete key s)) = (False, s))"
    by (rule TTLLRUCache_delete)
next
  have res: "fst (TTLCache_delete key c) = JSUndefined"
    by (simp add: TTLCache_delete_def Let_def)
  have gone: "\<not> map_has key (map_delete key (cache_v2 c))"
    using map_delete_not_in [of key "cache_v2 c"] by (simp add: map_has_iff del: set_map)
  have others: "map_get k (map_delete key (cache_v2 c)) = map_get k (cache_v2 c)"
    if "k \<noteq> key" for k
    using that by (simp add: map_get_def map_of_map_delete)
  have absent: "TTLCache_delete key c = (JSUndefined, c)
      \<and> TTLCache_delete key (snd (TTLCache_delete key c)) = (JSUndefined, c)"
    if "\<not> map_has key (cache_v2 c)"
    using TTLCache_delete_absent [OF that] by simp
  show "fst (TTLCache_delete key c) = JSUndefined
    \<and> cache_v2 (snd (TTLCache_delete key c)) = map_delete key (cache_v2 c)
    \<and> \<not> map_has key (cache_v2 (snd (TTLCache_delete key c)))
    \<and> (\<forall>k. k \<noteq> key \<longrightarrow>
         map_get k (cache_v2 (snd (TTLCache_delete key c))) = map_get k (cache_v2 c))
    \<and> calls (localStorage_v2 (snd (TTLCache_delete key c))) =
        calls (localStorage_v2 c) @
        (if map_has key (cache_v2 c)
         then [SetItem (storageKey (config_v2 c))
                 (JsonText (toElems (map_delete key (cache_v2 c))))]
         else [])
    \<and> (\<not> map_has key (cache_v2 c) \<longrightarrow>
         TTLCache_delete key c = (JSUndefined, c)
         \<and> TTLCache_delete key (snd (TTLCache_delete key c)) = (JSUndefined, c))"
    unfolding TTLCache_delete_cache
    by (intro conjI allI impI res refl gone others TTLCache_delete_calls
        absent [THEN conjunct1] absent [THEN conjunct2])
qed

theorem delete_contract_witness:
  "\<not> map_has ''Z'' (cache c3Cache)
   \<and> delete ''Z'' c3Cache = (False, c3Cache)
   \<and> delete ''Z'' (snd (delete ''Z'' c3Cache)) = (False, c3Cache)
   \<and> map_has ''A'' (cache c3Cache)
   \<and> fst (delete ''A'' c3Cache)
   \<and> getKeys (snd (delete ''A'' c3Cache)) = [''C'', ''B'']
   \<and> \<not> map_has ''Z'' (cache_v2 c3TTLCache)
   \<and> TTLCache_delete ''Z'' c3TTLCache = (JSUndefined, c3TTLCache)
   \<and> TTLCache_delete ''Z'' (snd (TTLCache_delete ''Z'' c3TTLCache)) = (JSUndefined, c3TTLCache)
   \<and> map_has ''A'' (cache_v2 c3TTLCache)
   \<and> fst (TTLCache_delete ''A'' c3TTLCache) = JSUndefined
   \<and> map fst (cache_v2 (snd (TTLCache_delete ''A'' c3TTLCache))) = [''B'', ''C'']"
proof -
  have absent: "\<not> map_has ''Z'' (cache c3Cache)" by code_simp
  have present: "map_has ''A'' (cache c3Cache)" by code_simp
  have keys: "getKeys (snd (delete ''A'' c3Cache)) = [''C'', ''B'']" by code_simp
  have absent2: "\<not> map_has ''Z'' (cache_v2 c3TTLCache)" by code_simp
  have present2: "map_has ''A'' (cache_v2 c3TTLCache)" by code_simp
  have keys2: "map fst (map_delete ''A'' (cache_v2 c3TTLCache)) = [''B'', ''C'']" by code_simp
  note dA = delete_contract [of "''A''" c3Cache c3TTLCache]
  note dZ = delete_contract [of "''Z''" c3Cache c3TTLCache]
  from dA present have removed: "fst (delete ''A'' c3Cache)"
    by simp
  from dA have void: "fst (TTLCache_delete ''A'' c3TTLCache) = JSUndefined"
    by simp
  from dA keys2
  have rest: "map fst (cache_v2 (snd (TTLCache_delete ''A'' c3TTLCache))) = [''B'', ''C'']"
    by simp
  from dZ absent
  have twice: "delete ''Z'' c3Cache = (False, c3Cache)
      \<and> delete ''Z'' (snd (delete ''Z'' c3Cache)) = (False, c3Cache)"
    by simp
  from dZ absent2
  have twice2: "TTLCache_delete ''Z'' c3TTLCache = (JSUndefined, c3TTLCache)
      \<and> TTLCache_delete ''Z'' (snd (TTLCache_delete ''Z'' c3TTLCache)) = (JSUndefined, c3TTLCache)"
    by simp
  show ?thesis
    by (intro conjI absent present keys removed twice [THEN conjunct1] twice [THEN conjunct2]
        absent2 present2 void rest twice2 [THEN conjunct1] twice2 [THEN conjunct2])
qed

subsection \<open>C10: persistence keeps the recency order\<close>

text \<open>
  Claim C10. A successful save writes, under the storage key, the resident entries in the order
  of the Map, LRU first. A fresh cache constructed with the same storage key on that
  \<open>localStorage\<close> holds the live ones of them in the same order. So when every resident entry is
  live at the time of the load, \<open>getKeys\<close> of the fresh cache is \<open>getKeys\<close> of the saved one, and
  \<open>getEntries\<close> of the two agree at every time.
\<close>

theorem save_load_keeps_order:
  assumes "distinct (map fst (cache s))"
    and "quota_ok (localStorage s)"
    and "storageKey cfg = storageKey (config s)"
  shows "items (localStorage (saveToStorage s)) (storageKey (config s)) =
      Some (JsonText (toElems (cache s)))
    \<and> cache (constructor cfg lg (localStorage (saveToStorage s)) t_load) =
        filter (\<lambda>p. t_load < expiresAt (snd p)) (cache s)
    \<and> ((\<forall>p \<in> set (cache s). t_load < expiresAt (snd p)) \<longrightarrow>
         getKeys (constructor cfg lg (localStorage (saveToStorage s)) t_load) = getKeys s
         \<and> (\<forall>t. fst (getEntries t (constructor cfg lg (localStorage (saveToStorage s)) t_load)) =
                fst (getEntries t s)))"
proof -
  note loaded = load_after_save [OF assms, of lg t_load]
  have same: "cache (constructor cfg lg (localStorage (saveToStorage s)) t_load) = cache s"
    if "\<forall>p \<in> set (cache s). t_load < expiresAt (snd p)"
    using that by (simp add: loaded)
  have entries: "fst (getEntries t (constructor cfg lg (localStorage (saveToStorage s)) t_load)) =
      fst (getEntries t s)"
    if "\<forall>p \<in> set (cache s). t_load < expiresAt (snd p)" for t
  proof -
    have "distinct (map fst (cache (constructor cfg lg (localStorage (saveToStorage s)) t_load)))"
      by (rule constructor_distinct)
    then show ?thesis
      using same [OF that] assms(1)
      by (simp add: getEntries_def Let_def cleanupExpired_cache del: distinct_map)
  qed
  show ?thesis
    using assms(2) loaded same entries
    by (simp add: saveToStorage_items getKeys_def)
qed

theorem save_load_keeps_order_witness:
  "distinct (map fst (cache c3Cache))
   \<and> quota_ok (localStorage c3Cache)
   \<and> storageKey c3Config = storageKey (config c3Cache)
   \<and> cache c3Cache =
       [(''A'', \<lparr>val = ''1'', expiresAt = 10010\<rparr>),
        (''B'', \<lparr>val = ''2'', expiresAt = 10020\<rparr>),
        (''C'', \<lparr>val = ''3'', expiresAt = 10030\<rparr>)]
   \<and> getKeys c3Cache = [''C'', ''B'', ''A'']
   \<and> getKeys (constructor c3Config [] (localStorage (saveToStorage c3Cache)) 40) =
       [''C'', ''B'', ''A'']"
proof -
  have dist: "distinct (map fst (cache c3Cache))"
    using c3Cache_reachable by (rule reachable_distinct)
  have quota: "quota_ok (localStorage c3Cache)" by code_simp
  have key: "storageKey c3Config = storageKey (config c3Cache)" by code_simp
  have live: "\<forall>p \<in> set (cache c3Cache). 40 < expiresAt (snd p)"
    by (simp add: c3Cache_cache)
  have keys: "getKeys c3Cache = [''C'', ''B'', ''A'']" by code_simp
  from save_load_keeps_order [OF dist quota key, of "[]" 40] live keys
  have "getKeys (constructor c3Config [] (localStorage (saveToStorage c3Cache)) 40) =
       [''C'', ''B'', ''A'']"
    by simp
  with dist quota key keys show ?thesis
    by (simp add: c3Cache_cache del: distinct_map)
qed

end
